theory Spec2Isabelle
  imports Main "HOL-Library.Sublist"
begin

section \<open>Characters and strings of detector.py\<close>

text \<open>
  A Python \<^verbatim>\<open>str\<close> is modelled as a \<^typ>\<open>string\<close>, a character being a code point
  below 256 (ASCII and the Latin-1 supplement); text with a code point from 256 on is
  outside the model. The patterns are \<^verbatim>\<open>str\<close> patterns compiled without
  \<^verbatim>\<open>re.ASCII\<close>, so the classes are Python's Unicode-aware ones, here on the range
  0..255: \<^verbatim>\<open>\d\<close> is a decimal digit (\<^verbatim>\<open>0-9\<close> only on this range), \<^verbatim>\<open>\w\<close> is an
  alphanumeric character or the underscore (\<^verbatim>\<open>[0-9A-Za-z_]\<close> and 71 characters
  of the supplement: letters, the superscript digits, the three fractions), and the
  whitespace of \<^verbatim>\<open>str.split()\<close> is tab, line feed, vertical tab, form feed, carriage
  return, the four separators 0x1C..0x1F, the space, 0x85 (next line) and 0xA0
  (no-break space).
\<close>

definition is_digit :: "char \<Rightarrow> bool" where
  "is_digit c = (c \<in> set ''0123456789'')"

definition is_upper :: "char \<Rightarrow> bool" where
  "is_upper c = (c \<in> set ''ABCDEFGHIJKLMNOPQRSTUVWXYZ'')"

definition is_lower :: "char \<Rightarrow> bool" where
  "is_lower c = (c \<in> set ''abcdefghijklmnopqrstuvwxyz'')"

text \<open>
  The characters from 0x80 to 0xFF that \<^verbatim>\<open>str.isalnum()\<close> accepts: the letters
  (0xAA, 0xB5, 0xBA, 0xC0..0xD6, 0xD8..0xF6, 0xF8..0xFF), the superscript digits (0xB2,
  0xB3, 0xB9) and the fractions (0xBC..0xBE).
\<close>

definition is_latin1_alnum :: "char \<Rightarrow> bool" where
  "is_latin1_alnum c =
     (c \<in> set [CHR 0xAA, CHR 0xB2, CHR 0xB3, CHR 0xB5, CHR 0xB9, CHR 0xBA, CHR 0xBC, CHR 0xBD,
                   CHR 0xBE, CHR 0xC0, CHR 0xC1, CHR 0xC2, CHR 0xC3, CHR 0xC4, CHR 0xC5, CHR 0xC6,
                   CHR 0xC7, CHR 0xC8, CHR 0xC9, CHR 0xCA, CHR 0xCB, CHR 0xCC, CHR 0xCD, CHR 0xCE,
                   CHR 0xCF, CHR 0xD0, CHR 0xD1, CHR 0xD2, CHR 0xD3, CHR 0xD4, CHR 0xD5, CHR 0xD6,
                   CHR 0xD8, CHR 0xD9, CHR 0xDA, CHR 0xDB, CHR 0xDC, CHR 0xDD, CHR 0xDE, CHR 0xDF,
                   CHR 0xE0, CHR 0xE1, CHR 0xE2, CHR 0xE3, CHR 0xE4, CHR 0xE5, CHR 0xE6, CHR 0xE7,
                   CHR 0xE8, CHR 0xE9, CHR 0xEA, CHR 0xEB, CHR 0xEC, CHR 0xED, CHR 0xEE, CHR 0xEF,
                   CHR 0xF0, CHR 0xF1, CHR 0xF2, CHR 0xF3, CHR 0xF4, CHR 0xF5, CHR 0xF6, CHR 0xF8,
                   CHR 0xF9, CHR 0xFA, CHR 0xFB, CHR 0xFC, CHR 0xFD, CHR 0xFE, CHR 0xFF])"

definition is_word :: "char \<Rightarrow> bool" where
  "is_word c =
     (is_digit c \<or> is_upper c \<or> is_lower c \<or> c = CHR ''_'' \<or> is_latin1_alnum c)"

definition is_space :: "char \<Rightarrow> bool" where
  "is_space c = (c \<in> set [CHR 0x09, CHR 0x0A, CHR 0x0B, CHR 0x0C, CHR 0x0D,
                            CHR 0x1C, CHR 0x1D, CHR 0x1E, CHR 0x1F, CHR '' '',
                            CHR 0x85, CHR 0xA0])"

text \<open>
  \<^verbatim>\<open>str.lower()\<close> on one character: the upper-case letters \<^verbatim>\<open>A-Z\<close>, 0xC0..0xD6 and
  0xD8..0xDE go to the letter 0x20 above, every other character below 256 stays.
\<close>

definition upper_letters :: string where
  "upper_letters =
     ''ABCDEFGHIJKLMNOPQRSTUVWXYZ'' @
     [CHR 0xC0, CHR 0xC1, CHR 0xC2, CHR 0xC3, CHR 0xC4, CHR 0xC5, CHR 0xC6, CHR 0xC7,
      CHR 0xC8, CHR 0xC9, CHR 0xCA, CHR 0xCB, CHR 0xCC, CHR 0xCD, CHR 0xCE, CHR 0xCF,
      CHR 0xD0, CHR 0xD1, CHR 0xD2, CHR 0xD3, CHR 0xD4, CHR 0xD5, CHR 0xD6, CHR 0xD8,
      CHR 0xD9, CHR 0xDA, CHR 0xDB, CHR 0xDC, CHR 0xDD, CHR 0xDE]"

definition lower_letters :: string where
  "lower_letters =
     ''abcdefghijklmnopqrstuvwxyz'' @
     [CHR 0xE0, CHR 0xE1, CHR 0xE2, CHR 0xE3, CHR 0xE4, CHR 0xE5, CHR 0xE6, CHR 0xE7,
      CHR 0xE8, CHR 0xE9, CHR 0xEA, CHR 0xEB, CHR 0xEC, CHR 0xED, CHR 0xEE, CHR 0xEF,
      CHR 0xF0, CHR 0xF1, CHR 0xF2, CHR 0xF3, CHR 0xF4, CHR 0xF5, CHR 0xF6, CHR 0xF8,
      CHR 0xF9, CHR 0xFA, CHR 0xFB, CHR 0xFC, CHR 0xFD, CHR 0xFE]"

definition to_lower :: "char \<Rightarrow> char" where
  "to_lower c =
     (case map_of (zip upper_letters lower_letters) c of
        None \<Rightarrow> c
      | Some l \<Rightarrow> l)"

definition lower :: "string \<Rightarrow> string" where
  "lower s = map to_lower s"

text \<open>\<^verbatim>\<open>term in value\<close> for two strings: \<open>term\<close> occurs as a contiguous substring.\<close>

fun str_contains :: "string \<Rightarrow> string \<Rightarrow> bool" where
  "str_contains t [] = (t = [])"
| "str_contains t (c # cs) = (prefix t (c # cs) \<or> str_contains t cs)"

text \<open>
  \<^verbatim>\<open>value.split()\<close>: the maximal runs of non-whitespace characters, in order. The
  first argument is the token being read.
\<close>

fun split_acc :: "string \<Rightarrow> string \<Rightarrow> string list" where
  "split_acc cur [] = (if cur = [] then [] else [cur])"
| "split_acc cur (c # cs) =
     (if is_space c then (if cur = [] then split_acc [] cs else cur # split_acc [] cs)
      else split_acc (cur @ [c]) cs)"

definition split_ws :: "string \<Rightarrow> string list" where
  "split_ws s = split_acc [] s"

text \<open>
  \<^verbatim>\<open>value.split('@', 1)\<close>: the text before the first separator and the text after it,
  or the whole string alone when the separator does not occur.
\<close>

definition split1 :: "char \<Rightarrow> string \<Rightarrow> string list" where
  "split1 sep s =
     (if sep \<in> set s then [takeWhile (\<lambda>c. c \<noteq> sep) s, tl (dropWhile (\<lambda>c. c \<noteq> sep) s)]
      else [s])"

text \<open>\<^verbatim>\<open>value[-n:]\<close> for a positive \<open>n\<close>: the last \<open>n\<close> characters, or all of a shorter string.\<close>

definition last_chars :: "nat \<Rightarrow> string \<Rightarrow> string" where
  "last_chars n s = drop (length s - n) s"

section \<open>Errors and values\<close>

datatype error = IndexError | ValueError | AttributeError | RecursionError

text \<open>\<^verbatim>\<open>xs[0]\<close> and \<^verbatim>\<open>xs[-1]\<close> raise IndexError on an empty sequence.\<close>

definition index0 :: "'a list \<Rightarrow> error + 'a" where
  "index0 xs = (case xs of [] \<Rightarrow> Inl IndexError | x # _ \<Rightarrow> Inr x)"

definition index_last :: "'a list \<Rightarrow> error + 'a" where
  "index_last xs = (if xs = [] then Inl IndexError else Inr (last xs))"

text \<open>
  A value of a decoded record. The code looks at a value in three ways only: whether it
  is a \<^verbatim>\<open>str\<close>, what \<^verbatim>\<open>str(value)\<close> is, and by handing it on unchanged. Strings,
  integers, booleans and null are modelled as they are; any other decoded value (a float,
  a list, a nested object) is \<open>VOther t\<close>, carried with the text \<open>t\<close> that \<^verbatim>\<open>str()\<close>
  gives for it.
\<close>

datatype pyval = VStr string | VInt int | VBool bool | VNone | VOther string

fun is_str :: "pyval \<Rightarrow> bool" where
  "is_str (VStr s) = True"
| "is_str v = False"

definition digit_char :: "nat \<Rightarrow> char" where
  "digit_char n = ''0123456789'' ! n"

fun str_nat :: "nat \<Rightarrow> string" where
  "str_nat n = (if n < 10 then [digit_char n] else str_nat (n div 10) @ [digit_char (n mod 10)])"

declare str_nat.simps [simp del]

fun py_str :: "pyval \<Rightarrow> string" where
  "py_str (VStr s) = s"
| "py_str (VInt i) = (if i < 0 then CHR ''-'' # str_nat (nat (- i)) else str_nat (nat i))"
| "py_str (VBool b) = (if b then ''True'' else ''False'')"
| "py_str VNone = ''None''"
| "py_str (VOther t) = t"

text \<open>
  A \<^verbatim>\<open>dict\<close> keeps its keys in insertion order: an association list. Assigning to a
  key that is present replaces the value in place; a new key goes to the end.
\<close>

type_synonym pydict = "(string \<times> pyval) list"

fun dict_set :: "pydict \<Rightarrow> string \<Rightarrow> pyval \<Rightarrow> pydict" where
  "dict_set [] k v = [(k, v)]"
| "dict_set ((k', v') # d) k v = (if k' = k then (k, v) # d else (k', v') # dict_set d k v)"

section \<open>The regular expressions\<close>

text \<open>
  The fragment of \<^verbatim>\<open>re\<close> the five patterns of the source use: the empty pattern,
  \<^verbatim>\<open>\b\<close>, one character of a class, \<^verbatim>\<open>[...]+\<close> on a class (greedy), sequence and
  alternative. \<^verbatim>\<open>r{n}\<close> is \<open>n\<close> copies of \<open>r\<close> in sequence.
\<close>

datatype citem = Digit | Word | Upper | Lit char

datatype regex =
    Eps
  | WordB
  | Cls "citem list"
  | Plus "citem list"
  | Seq regex regex
  | Alt regex regex

fun item_has :: "citem \<Rightarrow> char \<Rightarrow> bool" where
  "item_has Digit c = is_digit c"
| "item_has Word c = is_word c"
| "item_has Upper c = is_upper c"
| "item_has (Lit l) c = (c = l)"

definition in_class :: "citem list \<Rightarrow> char \<Rightarrow> bool" where
  "in_class items c = list_ex (\<lambda>i. item_has i c) items"

primrec rep :: "nat \<Rightarrow> regex \<Rightarrow> regex" where
  "rep 0 r = Eps"
| "rep (Suc n) r = Seq r (rep n r)"

definition cat :: "regex list \<Rightarrow> regex" where
  "cat rs = foldr Seq rs Eps"

text \<open>
  A position in the subject string is the character before it (if any) and the text
  from it on. \<open>re_match r q\<close> lists the positions at which a match of \<open>r\<close> that starts
  at \<open>q\<close> can end, in the order in which the backtracking matcher tries them.
\<close>

type_synonym pos = "char option \<times> string"

fun word_opt :: "char option \<Rightarrow> bool" where
  "word_opt None = False"
| "word_opt (Some c) = is_word c"

fun hd_opt :: "string \<Rightarrow> char option" where
  "hd_opt [] = None"
| "hd_opt (c # cs) = Some c"

fun plus_run :: "citem list \<Rightarrow> string \<Rightarrow> pos list" where
  "plus_run cl [] = []"
| "plus_run cl (c # cs) = (if in_class cl c then plus_run cl cs @ [(Some c, cs)] else [])"

fun re_match :: "regex \<Rightarrow> pos \<Rightarrow> pos list" where
  "re_match Eps q = [q]"
| "re_match WordB (p, s) = (if word_opt p \<noteq> word_opt (hd_opt s) then [(p, s)] else [])"
| "re_match (Cls cl) (p, []) = []"
| "re_match (Cls cl) (p, c # cs) = (if in_class cl c then [(Some c, cs)] else [])"
| "re_match (Plus cl) (p, s) = plus_run cl s"
| "re_match (Seq a b) q = concat (map (re_match b) (re_match a q))"
| "re_match (Alt a b) q = re_match a q @ re_match b q"

text \<open>
  \<^verbatim>\<open>pattern.search(value)\<close>: the first start position, from the left, with a match;
  the result is the matched text (\<^verbatim>\<open>group()\<close>), \<open>None\<close> when there is no match.
\<close>

fun search_from :: "regex \<Rightarrow> char option \<Rightarrow> string \<Rightarrow> string option" where
  "search_from r p [] = (case re_match r (p, []) of [] \<Rightarrow> None | q # _ \<Rightarrow> Some [])"
| "search_from r p (c # cs) =
     (case re_match r (p, c # cs) of
        [] \<Rightarrow> search_from r (Some c) cs
      | q # _ \<Rightarrow> Some (take (length (c # cs) - length (snd q)) (c # cs)))"

definition re_search :: "regex \<Rightarrow> string \<Rightarrow> string option" where
  "re_search r s = search_from r None s"

text \<open>The truth value of \<^verbatim>\<open>pattern.search(value)\<close> in a condition.\<close>

definition re_found :: "regex \<Rightarrow> string \<Rightarrow> bool" where
  "re_found r s = (re_search r s \<noteq> None)"

text \<open>The character before the position reached by reading \<open>u\<close> from a position after \<open>p\<close>.\<close>

definition last_opt :: "char option \<Rightarrow> string \<Rightarrow> char option" where
  "last_opt p u = (if u = [] then p else Some (last u))"

definition phone_pattern :: regex where
  "phone_pattern = cat [WordB, rep 10 (Cls [Digit]), WordB]"

definition aadhar_pattern :: regex where
  "aadhar_pattern = cat [WordB, rep 12 (Cls [Digit]), WordB]"

definition passport_pattern :: regex where
  "passport_pattern = cat [WordB, rep 1 (Cls [Upper]), rep 7 (Cls [Digit]), WordB]"

definition upi_pattern :: regex where
  "upi_pattern =
     Alt (cat [WordB, Plus [Word, Lit CHR ''.'', Lit CHR ''-''], Cls [Lit CHR ''@''],
               Plus [Word, Lit CHR ''.'', Lit CHR ''-''], Cls [Lit CHR ''.''], Plus [Word], WordB])
         (cat [WordB, rep 10 (Cls [Digit]), Cls [Lit CHR ''@''], Plus [Word], WordB])"

definition pin_pattern :: regex where
  "pin_pattern = cat [WordB, rep 6 (Cls [Digit]), WordB]"

section \<open>PIIDetector\<close>

fun detect_standalone_pii :: "pyval \<Rightarrow> bool" where
  "detect_standalone_pii (VStr s) =
     (re_found phone_pattern s \<or> re_found aadhar_pattern s \<or>
      re_found passport_pattern s \<or> re_found upi_pattern s)"
| "detect_standalone_pii v = False"

record flags =
  name_flag :: bool
  email_flag :: bool
  address_flag :: bool
  device_ip_flag :: bool

definition address_terms :: "string list" where
  "address_terms = [''road'', ''street'', ''lane'', ''avenue'', ''nagar'']"

text \<open>One pass of the loop over \<^verbatim>\<open>data.items()\<close> in \<^verbatim>\<open>detect_combinatorial_pii\<close>.\<close>

definition flag_step :: "string \<times> pyval \<Rightarrow> flags \<Rightarrow> flags" where
  "flag_step kv fl =
     (case snd kv of
        VStr s \<Rightarrow>
          (let key = fst kv;
               f1 = (if key = ''name'' \<and> CHR '' '' \<in> set s \<and> 2 \<le> length (split_ws s)
                     then fl\<lparr>name_flag := True\<rparr> else fl);
               f2 = (if key = ''email'' \<and> CHR ''@'' \<in> set s
                     then f1\<lparr>email_flag := True\<rparr> else f1);
               f3 = (if key = ''address'' \<and> list_ex (\<lambda>t. str_contains t (lower s)) address_terms
                     then f2\<lparr>address_flag := True\<rparr> else f2);
               f4 = (if key \<in> set [''device_id'', ''ip_address'']
                     then f3\<lparr>device_ip_flag := True\<rparr> else f3)
           in f4)
      | _ \<Rightarrow> fl)"

fun flag_loop :: "pydict \<Rightarrow> flags \<Rightarrow> flags" where
  "flag_loop [] fl = fl"
| "flag_loop (kv # rest) fl = flag_loop rest (flag_step kv fl)"

definition combinatorial_flags :: "pydict \<Rightarrow> flags" where
  "combinatorial_flags data =
     flag_loop data
       \<lparr>name_flag = False, email_flag = False, address_flag = False, device_ip_flag = False\<rparr>"

definition flag_sum :: "flags \<Rightarrow> nat" where
  "flag_sum fl =
     of_bool (name_flag fl) + of_bool (email_flag fl) + of_bool (address_flag fl) +
     of_bool (device_ip_flag fl)"

definition detect_combinatorial_pii :: "pydict \<Rightarrow> bool" where
  "detect_combinatorial_pii data = (2 \<le> flag_sum (combinatorial_flags data))"

text \<open>
  \<^verbatim>\<open>username, domain = value.split('@', 1)\<close> followed by
  \<^verbatim>\<open>username[:2] + 'XXX@' + domain\<close>; the unpacking raises ValueError unless the split
  gives exactly two parts.
\<close>

definition mask_at :: "string \<Rightarrow> error + pyval" where
  "mask_at s =
     (case split1 CHR ''@'' s of
        [username, domain] \<Rightarrow> Inr (VStr (take 2 username @ ''XXX@'' @ domain))
      | _ \<Rightarrow> Inl ValueError)"

text \<open>
  \<^verbatim>\<open>parts = value.split()\<close> followed by
  \<^verbatim>\<open>parts[0][0] + 'XXX ' + parts[-1][0] + 'XXX'\<close>; each of the four subscripts raises
  IndexError on an empty sequence.
\<close>

definition mask_name :: "string \<Rightarrow> error + pyval" where
  "mask_name s =
     (let parts = split_ws s in
      case index0 parts of
        Inl e \<Rightarrow> Inl e
      | Inr first \<Rightarrow>
          (case index0 first of
             Inl e \<Rightarrow> Inl e
           | Inr a \<Rightarrow>
               (case index_last parts of
                  Inl e \<Rightarrow> Inl e
                | Inr lst \<Rightarrow>
                    (case index0 lst of
                       Inl e \<Rightarrow> Inl e
                     | Inr b \<Rightarrow> Inr (VStr (a # ''XXX '' @ b # ''XXX''))))))"

definition redact_str :: "string \<Rightarrow> string \<Rightarrow> error + pyval" where
  "redact_str key s =
     (if key = ''phone'' \<and> re_found phone_pattern s then
        Inr (VStr (take 2 s @ ''XXXXXX'' @ last_chars 2 s))
      else if key = ''aadhar'' \<and> re_found aadhar_pattern s then
        Inr (VStr (''XXXX XXXX '' @ last_chars 4 s))
      else if key = ''passport'' \<and> re_found passport_pattern s then
        (case index0 s of Inl e \<Rightarrow> Inl e | Inr c \<Rightarrow> Inr (VStr (c # ''XXXXXXX'')))
      else if key = ''upi_id'' \<and> re_found upi_pattern s then
        (if CHR ''@'' \<in> set s then mask_at s
         else Inr (VStr (take 2 s @ ''XXXXXX'' @ last_chars 4 s)))
      else if key = ''name'' \<and> CHR '' '' \<in> set s then mask_name s
      else if key = ''email'' \<and> CHR ''@'' \<in> set s then mask_at s
      else if key = ''address'' then
        (case re_search pin_pattern s of
           Some pin \<Rightarrow> Inr (VStr (''[REDACTED_ADDRESS], '' @ pin))
         | None \<Rightarrow> Inr (VStr ''[REDACTED_ADDRESS]''))
      else Inr (VStr s))"

fun redact_value :: "string \<Rightarrow> pyval \<Rightarrow> error + pyval" where
  "redact_value key (VStr s) = redact_str key s"
| "redact_value key v = Inr v"

text \<open>
  The first loop of \<^verbatim>\<open>process_record\<close>, over \<^verbatim>\<open>data.items()\<close>; the state is
  \<^verbatim>\<open>has_pii\<close> and \<^verbatim>\<open>redacted_data\<close>. An exception of \<^verbatim>\<open>redact_value\<close> ends it.
\<close>

fun standalone_loop :: "pydict \<Rightarrow> bool \<times> pydict \<Rightarrow> error + (bool \<times> pydict)" where
  "standalone_loop [] st = Inr st"
| "standalone_loop ((key, value) # rest) (has_pii, redacted_data) =
     (if detect_standalone_pii (VStr (py_str value)) then
        (case redact_value key value of
           Inl e \<Rightarrow> Inl e
         | Inr v \<Rightarrow> standalone_loop rest (True, dict_set redacted_data key v))
      else standalone_loop rest (has_pii, dict_set redacted_data key value))"

text \<open>
  The second loop, over \<^verbatim>\<open>redacted_data.items()\<close>. It assigns only to the key it is
  visiting, so each item is seen with the value the first loop left.
\<close>

fun combinatorial_loop :: "pydict \<Rightarrow> pydict \<Rightarrow> error + pydict" where
  "combinatorial_loop [] redacted_data = Inr redacted_data"
| "combinatorial_loop ((key, value) # rest) redacted_data =
     (if key \<in> set [''name'', ''email'', ''address'', ''device_id'', ''ip_address''] then
        (case redact_value key value of
           Inl e \<Rightarrow> Inl e
         | Inr v \<Rightarrow> combinatorial_loop rest (dict_set redacted_data key v))
      else combinatorial_loop rest redacted_data)"

text \<open>The body of \<^verbatim>\<open>process_record\<close> between decoding and encoding.\<close>

definition process_mapping :: "pydict \<Rightarrow> error + (pydict \<times> bool)" where
  "process_mapping data =
     (case standalone_loop data (False, []) of
        Inl e \<Rightarrow> Inl e
      | Inr (has_pii, redacted_data) \<Rightarrow>
          (if \<not> has_pii \<and> detect_combinatorial_pii data then
             (case combinatorial_loop redacted_data redacted_data of
                Inl e \<Rightarrow> Inl e
              | Inr rd \<Rightarrow> Inr (rd, True))
           else Inr (redacted_data, has_pii)))"

text \<open>
  \<^verbatim>\<open>json.loads\<close> and \<^verbatim>\<open>json.dumps\<close> are library functions and are parameters of the
  model. \<open>loads\<close> has four outcomes: it raises JSONDecodeError; it raises another
  exception (RecursionError on text nested too deeply, ValueError on an integer literal
  of more digits than the interpreter converts); it returns a \<^verbatim>\<open>dict\<close>; it returns a
  value of another type (a list, a string, a number, a boolean, null), which has no
  \<^verbatim>\<open>items\<close>. The \<^verbatim>\<open>try\<close> statement has the one clause
  \<^verbatim>\<open>except json.JSONDecodeError\<close>, so any other exception of the decoder leaves
  \<^verbatim>\<open>process_record\<close>.
\<close>

datatype decoded = JSONDecodeError | DecoderRaises error | Dict pydict | NonDict pyval

definition process_record ::
  "(string \<Rightarrow> decoded) \<Rightarrow> (pydict \<Rightarrow> string) \<Rightarrow> int \<Rightarrow> string \<Rightarrow> error + (string \<times> bool)" where
  "process_record loads dumps record_id data_json =
     (case loads data_json of
        JSONDecodeError \<Rightarrow> Inr (data_json, False)
      | DecoderRaises e \<Rightarrow> Inl e
      | NonDict v \<Rightarrow> Inl AttributeError
      | Dict data \<Rightarrow>
          (case process_mapping data of
             Inl e \<Rightarrow> Inl e
           | Inr (redacted_data, has_pii) \<Rightarrow> Inr (dumps redacted_data, has_pii)))"

section \<open>The four combinatorial signals\<close>

text \<open>
  The signals of the combinatorial detector as its description states them, over the
  mapping as a whole. \<open>device_ip_signal\<close> is the description's signal: a field named
  \<^verbatim>\<open>device_id\<close> or \<^verbatim>\<open>ip_address\<close> is present, whatever its value.
  \<open>device_ip_str_signal\<close> asks in addition that the value is a string.
\<close>

definition name_signal :: "pydict \<Rightarrow> bool" where
  "name_signal data =
     (\<exists>kv\<in>set data. fst kv = ''name'' \<and>
        (case snd kv of
           VStr s \<Rightarrow> CHR '' '' \<in> set s \<and> 2 \<le> length (split_ws s)
         | _ \<Rightarrow> False))"

definition email_signal :: "pydict \<Rightarrow> bool" where
  "email_signal data =
     (\<exists>kv\<in>set data. fst kv = ''email'' \<and>
        (case snd kv of VStr s \<Rightarrow> CHR ''@'' \<in> set s | _ \<Rightarrow> False))"

definition address_signal :: "pydict \<Rightarrow> bool" where
  "address_signal data =
     (\<exists>kv\<in>set data. fst kv = ''address'' \<and>
        (case snd kv of
           VStr s \<Rightarrow> (\<exists>t\<in>set [''road'', ''street'', ''lane'', ''avenue'', ''nagar''].
                        str_contains t (lower s))
         | _ \<Rightarrow> False))"

definition device_ip_signal :: "pydict \<Rightarrow> bool" where
  "device_ip_signal data =
     (\<exists>kv\<in>set data. fst kv = ''device_id'' \<or> fst kv = ''ip_address'')"

definition device_ip_str_signal :: "pydict \<Rightarrow> bool" where
  "device_ip_str_signal data =
     (\<exists>kv\<in>set data. (fst kv = ''device_id'' \<or> fst kv = ''ip_address'') \<and> is_str (snd kv))"

section \<open>What cannot be JSON\<close>

text \<open>
  RFC 8259: a JSON text is one value between optional whitespace (space, tab, line feed,
  carriage return), and a value is an object, an array, a string, a number or one of
  \<^verbatim>\<open>true\<close>, \<^verbatim>\<open>false\<close>, \<^verbatim>\<open>null\<close>; so its first character is a brace, a bracket, a
  double quote, a minus sign, a digit or one of \<^verbatim>\<open>t\<close>, \<^verbatim>\<open>f\<close>, \<^verbatim>\<open>n\<close>.
  \<open>json_start s\<close> holds when the first non-blank character of \<open>s\<close> is one of these:
  a payload without it is not valid JSON.
\<close>

definition json_ws :: "char \<Rightarrow> bool" where
  "json_ws c = (c \<in> set [CHR '' '', CHR 0x09, CHR 0x0A, CHR 0x0D])"

definition json_value_start :: "char \<Rightarrow> bool" where
  "json_value_start c = (c \<in> set (CHR 0x22 # ''{[-0123456789tfn''))"

definition json_start :: "string \<Rightarrow> bool" where
  "json_start s = (case dropWhile json_ws s of [] \<Rightarrow> False | c # _ \<Rightarrow> json_value_start c)"

section \<open>Character classes and matching\<close>

lemma is_digit_word: "is_digit c \<Longrightarrow> is_word c"
  by (simp add: is_word_def)

lemma is_digit_not_upper: "is_digit c \<Longrightarrow> \<not> is_upper c"
  by (auto simp: is_digit_def is_upper_def)

lemma is_digit_not_at: "is_digit c \<Longrightarrow> c \<noteq> CHR ''@''"
  by (auto simp: is_digit_def)

lemma is_word_not_space: "is_word c \<Longrightarrow> \<not> is_space c"
  by (auto simp: is_word_def is_digit_def is_upper_def is_lower_def is_latin1_alnum_def
        is_space_def)

lemma last_opt_Nil [simp]: "last_opt p [] = p"
  by (simp add: last_opt_def)

lemma last_opt_Cons [simp]: "last_opt p (c # u) = last_opt (Some c) u"
  by (simp add: last_opt_def)

lemma in_class_single [simp]:
  "in_class [Digit] c = is_digit c" "in_class [Upper] c = is_upper c"
  "in_class [Word] c = is_word c" "in_class [Lit l] c = (c = l)"
  by (simp_all add: in_class_def)

lemma re_match_seq_assoc:
  "re_match (Seq (Seq a b) k) q = re_match (Seq a (Seq b k)) q"
proof -
  have "concat (map f (concat (map g xs))) = concat (map (\<lambda>x. concat (map f (g x))) xs)"
    for f :: "pos \<Rightarrow> pos list" and g :: "pos \<Rightarrow> pos list" and xs
    by (induction xs) simp_all
  moreover have "re_match (Seq b k) = (\<lambda>x. concat (map (re_match k) (re_match b x)))"
    by (rule ext) simp
  ultimately show ?thesis by simp
qed

lemma re_match_seq_wordb:
  "re_match (Seq WordB k) (p, t) =
     (if word_opt p \<noteq> word_opt (hd_opt t) then re_match k (p, t) else [])"
  by simp

lemma re_match_seq_cls:
  "re_match (Seq (Cls cl) k) (p, t) =
     (case t of [] \<Rightarrow> [] | c # cs \<Rightarrow> if in_class cl c then re_match k (Some c, cs) else [])"
  by (cases t) simp_all

lemmas seq_simps = re_match_seq_wordb re_match_seq_cls

lemma re_match_rep_cls:
  "re_match (Seq (rep n (Cls cl)) k) (p, t) =
     (if n \<le> length t \<and> list_all (in_class cl) (take n t)
      then re_match k (last_opt p (take n t), drop n t) else [])"
proof (induction n arbitrary: p t)
  case 0
  show ?case by simp
next
  case (Suc n)
  have "re_match (Seq (rep (Suc n) (Cls cl)) k) (p, t) =
        concat (map (re_match (Seq (rep n (Cls cl)) k)) (re_match (Cls cl) (p, t)))"
    using re_match_seq_assoc [of "Cls cl" "rep n (Cls cl)" k "(p, t)"] by simp
  then show ?case
    using Suc.IH by (cases t) simp_all
qed

lemma search_from_iff:
  "search_from r p s \<noteq> None \<longleftrightarrow> (\<exists>u t. s = u @ t \<and> re_match r (last_opt p u, t) \<noteq> [])"
proof (induction s arbitrary: p)
  case Nil
  show ?case by (simp split: list.splits)
next
  case (Cons c cs)
  have "search_from r p (c # cs) \<noteq> None \<longleftrightarrow>
        re_match r (p, c # cs) \<noteq> [] \<or> search_from r (Some c) cs \<noteq> None"
    by (simp split: list.splits)
  also have "\<dots> \<longleftrightarrow> re_match r (p, c # cs) \<noteq> [] \<or>
        (\<exists>u t. cs = u @ t \<and> re_match r (last_opt (Some c) u, t) \<noteq> [])"
    by (simp only: Cons.IH)
  also have "\<dots> \<longleftrightarrow> (\<exists>u t. c # cs = u @ t \<and> re_match r (last_opt p u, t) \<noteq> [])"
  proof
    assume "re_match r (p, c # cs) \<noteq> [] \<or>
        (\<exists>u t. cs = u @ t \<and> re_match r (last_opt (Some c) u, t) \<noteq> [])"
    then show "\<exists>u t. c # cs = u @ t \<and> re_match r (last_opt p u, t) \<noteq> []"
    proof
      assume "re_match r (p, c # cs) \<noteq> []"
      then have "c # cs = [] @ (c # cs) \<and> re_match r (last_opt p [], c # cs) \<noteq> []" by simp
      then show ?thesis by blast
    next
      assume "\<exists>u t. cs = u @ t \<and> re_match r (last_opt (Some c) u, t) \<noteq> []"
      then obtain u t where "cs = u @ t" "re_match r (last_opt (Some c) u, t) \<noteq> []" by blast
      then have "c # cs = (c # u) @ t \<and> re_match r (last_opt p (c # u), t) \<noteq> []" by simp
      then show ?thesis by blast
    qed
  next
    assume "\<exists>u t. c # cs = u @ t \<and> re_match r (last_opt p u, t) \<noteq> []"
    then obtain u t where ut: "c # cs = u @ t" "re_match r (last_opt p u, t) \<noteq> []" by blast
    show "re_match r (p, c # cs) \<noteq> [] \<or>
        (\<exists>u t. cs = u @ t \<and> re_match r (last_opt (Some c) u, t) \<noteq> [])"
    proof (cases u)
      case Nil
      with ut show ?thesis by simp
    next
      case (Cons x u')
      with ut have "cs = u' @ t \<and> re_match r (last_opt (Some c) u', t) \<noteq> []" by simp
      then show ?thesis by blast
    qed
  qed
  finally show ?case .
qed

lemma re_found_iff:
  "re_found r s \<longleftrightarrow> (\<exists>u t. s = u @ t \<and> re_match r (last_opt None u, t) \<noteq> [])"
  by (simp only: re_found_def re_search_def search_from_iff)

lemma digit_run_match:
  "re_match (cat [WordB, rep n (Cls [Digit]), WordB]) (p, t) \<noteq> [] \<longleftrightarrow>
     word_opt p \<noteq> word_opt (hd_opt t) \<and> n \<le> length t \<and> list_all is_digit (take n t) \<and>
     word_opt (last_opt p (take n t)) \<noteq> word_opt (hd_opt (drop n t))"
  by (simp add: cat_def re_match_rep_cls seq_simps list_all_iff del: re_match.simps(6))

lemma word_opt_last_opt:
  "list_all is_word u \<Longrightarrow> word_opt (last_opt p u) = (if u = [] then word_opt p else True)"
  by (auto simp: last_opt_def list_all_iff)

lemma digit_run_search_all_word:
  assumes s: "list_all is_word s" and n: "0 < n"
    and m: "re_found (cat [WordB, rep n (Cls [Digit]), WordB]) s"
  shows "length s = n"
proof -
  from m obtain u t where ut: "s = u @ t"
    and "re_match (cat [WordB, rep n (Cls [Digit]), WordB]) (last_opt None u, t) \<noteq> []"
    unfolding re_found_iff by blast
  then have b1: "word_opt (last_opt None u) \<noteq> word_opt (hd_opt t)" and len: "n \<le> length t"
    and b2: "word_opt (last_opt (last_opt None u) (take n t)) \<noteq> word_opt (hd_opt (drop n t))"
    by (simp_all add: digit_run_match)
  from s ut have wu: "list_all is_word u" and wt: "list_all is_word t" by simp_all
  from len n have tne: "t \<noteq> []" by auto
  with wt have "word_opt (hd_opt t)" by (cases t) simp_all
  with b1 wu have "u = []" by (simp add: word_opt_last_opt split: if_splits)
  from tne n have "take n t \<noteq> []" by (cases t) simp_all
  moreover from wt have "list_all is_word (take n t)"
    by (auto simp: list_all_iff dest: in_set_takeD)
  ultimately have "word_opt (last_opt (last_opt None u) (take n t))"
    by (simp add: word_opt_last_opt)
  with b2 have "\<not> word_opt (hd_opt (drop n t))" by simp
  moreover from wt have "list_all is_word (drop n t)"
    by (auto simp: list_all_iff dest: in_set_dropD)
  ultimately have "drop n t = []" by (cases "drop n t") simp_all
  with len \<open>u = []\<close> ut show ?thesis by simp
qed




lemma digit_run_search:
  assumes d: "list_all is_digit d" and ne: "d \<noteq> []"
    and a: "a = [] \<or> \<not> is_word (last a)" and b: "b = [] \<or> \<not> is_word (hd b)"
  shows "re_found (cat [WordB, rep (length d) (Cls [Digit]), WordB]) (a @ d @ b)"
proof -
  from d have wd: "list_all is_word d" by (auto simp: list_all_iff is_digit_word)
  from a have 1: "\<not> word_opt (last_opt None a)" by (auto simp: last_opt_def)
  from wd ne have 2: "word_opt (hd_opt (d @ b))" by (cases d) simp_all
  from wd ne have 3: "word_opt (last_opt (last_opt None a) d)" by (simp add: word_opt_last_opt)
  from b have 4: "\<not> word_opt (hd_opt b)" by (cases b) simp_all
  from d 1 2 3 4
  have "re_match (cat [WordB, rep (length d) (Cls [Digit]), WordB]) (last_opt None a, d @ b) \<noteq> []"
    by (simp add: digit_run_match)
  then show ?thesis
    unfolding re_found_iff by blast
qed

lemma plus_run_suffix: "q \<in> set (plus_run cl s) \<Longrightarrow> suffix (snd q) s"
  by (induction s) (auto simp: suffix_Cons split: if_splits)

lemma seq_cls_nonempty:
  "re_match (Seq (Cls cl) k) (p, t) \<noteq> [] \<Longrightarrow> \<exists>c cs. t = c # cs \<and> in_class cl c"
  by (cases t) (simp_all split: if_splits)

lemma seq_plus_cls_nonempty:
  assumes "re_match (Seq (Plus cl) (Seq (Cls cl') k)) (p, t) \<noteq> []"
  shows "\<exists>c\<in>set t. in_class cl' c"
proof -
  from assms obtain q where q: "q \<in> set (plus_run cl t)"
    and m: "re_match (Seq (Cls cl') k) q \<noteq> []"
    by auto
  from m obtain c cs where "snd q = c # cs" "in_class cl' c"
    using seq_cls_nonempty [of cl' k "fst q" "snd q"] by auto
  moreover from q have "set (snd q) \<subseteq> set t"
    using plus_run_suffix set_mono_suffix by blast
  ultimately show ?thesis by auto
qed

lemma upi_search_at:
  assumes "re_found upi_pattern s"
  shows "CHR ''@'' \<in> set s"
proof -
  from assms obtain u t where ut: "s = u @ t"
    and m: "re_match upi_pattern (last_opt None u, t) \<noteq> []"
    unfolding re_found_iff by blast
  let ?A = "Seq (Plus [Word, Lit CHR ''.'', Lit CHR ''-''])
              (Seq (Cls [Lit CHR ''@''])
                (cat [Plus [Word, Lit CHR ''.'', Lit CHR ''-''], Cls [Lit CHR ''.''], Plus [Word], WordB]))"
  let ?B = "Seq (rep 10 (Cls [Digit])) (Seq (Cls [Lit CHR ''@'']) (cat [Plus [Word], WordB]))"
  from m have "re_match (Seq WordB ?A) (last_opt None u, t) \<noteq> [] \<or>
               re_match (Seq WordB ?B) (last_opt None u, t) \<noteq> []"
    by (simp add: upi_pattern_def cat_def del: re_match.simps(6))
  then have "re_match ?A (last_opt None u, t) \<noteq> [] \<or> re_match ?B (last_opt None u, t) \<noteq> []"
    by (auto simp add: re_match_seq_wordb simp del: re_match.simps(6) split: if_splits)
  then have "CHR ''@'' \<in> set t"
  proof
    assume "re_match ?A (last_opt None u, t) \<noteq> []"
    then show ?thesis
      using seq_plus_cls_nonempty [of _ "[Lit CHR ''@'']" _ "last_opt None u" t] by auto
  next
    assume "re_match ?B (last_opt None u, t) \<noteq> []"
    then have "re_match (Seq (Cls [Lit CHR ''@'']) (cat [Plus [Word], WordB]))
                 (last_opt (last_opt None u) (take 10 t), drop 10 t) \<noteq> []"
      by (simp add: re_match_rep_cls del: re_match.simps(6) split: if_splits)
    then obtain cs where "drop 10 t = CHR ''@'' # cs"
      using seq_cls_nonempty by fastforce
    then have "CHR ''@'' \<in> set (drop 10 t)" by simp
    then show ?thesis by (rule in_set_dropD)
  qed
  with ut show ?thesis by simp
qed

lemma passport_search_upper:
  assumes "re_found passport_pattern s"
  shows "\<exists>c\<in>set s. is_upper c"
proof -
  from assms obtain u t where ut: "s = u @ t"
    and m: "re_match passport_pattern (last_opt None u, t) \<noteq> []"
    unfolding re_found_iff by blast
  from m have "1 \<le> length t \<and> list_all (in_class [Upper]) (take 1 t)"
    by (simp add: passport_pattern_def cat_def re_match_seq_wordb re_match_rep_cls
             del: re_match.simps(6) rep.simps split: if_splits)
  then have "\<exists>c\<in>set t. is_upper c" by (cases t) simp_all
  with ut show ?thesis by auto
qed

lemma wordb_search_word:
  assumes "re_found (Seq WordB k) s"
  shows "\<exists>c\<in>set s. is_word c"
proof -
  from assms obtain u t where ut: "s = u @ t"
    and m: "re_match (Seq WordB k) (last_opt None u, t) \<noteq> []"
    unfolding re_found_iff by blast
  from m have "word_opt (last_opt None u) \<noteq> word_opt (hd_opt t)"
    by (simp split: if_splits)
  then have "(\<exists>c\<in>set u. is_word c) \<or> (\<exists>c\<in>set t. is_word c)"
    by (cases t; cases "u = []") (auto simp: last_opt_def)
  with ut show ?thesis by auto
qed

lemma alt_search:
  "re_found (Alt a b) s \<longleftrightarrow> re_found a s \<or> re_found b s"
  unfolding re_found_iff by auto

lemma detect_standalone_word:
  assumes "detect_standalone_pii (VStr s)"
  shows "\<exists>c\<in>set s. is_word c"
  using assms
  by (auto simp: phone_pattern_def aadhar_pattern_def passport_pattern_def upi_pattern_def
        cat_def alt_search simp del: re_match.simps rep.simps dest: wordb_search_word)

lemma detect_digits_false:
  assumes d: "list_all is_digit s" and len: "length s \<noteq> 10" "length s \<noteq> 12"
  shows "\<not> detect_standalone_pii (VStr s)"
proof -
  from d have w: "list_all is_word s" by (auto simp: list_all_iff is_digit_word)
  have "\<not> re_found phone_pattern s"
    using digit_run_search_all_word [OF w, of 10] len by (auto simp: phone_pattern_def)
  moreover have "\<not> re_found aadhar_pattern s"
    using digit_run_search_all_word [OF w, of 12] len by (auto simp: aadhar_pattern_def)
  moreover have "\<not> re_found passport_pattern s"
    using passport_search_upper [of s] d by (auto simp: list_all_iff is_digit_not_upper)
  moreover have "\<not> re_found upi_pattern s"
    using upi_search_at [of s] d by (auto simp: list_all_iff dest: is_digit_not_at)
  ultimately show ?thesis by simp
qed

section \<open>Splitting, masking and the two loops\<close>

lemma split_acc_tokens: "t \<in> set (split_acc cur s) \<Longrightarrow> t \<noteq> []"
  by (induction s arbitrary: cur) (auto split: if_splits)

lemma split_acc_nonempty:
  "cur \<noteq> [] \<or> (\<exists>c\<in>set s. \<not> is_space c) \<Longrightarrow> split_acc cur s \<noteq> []"
  by (induction s arbitrary: cur) auto

lemma mask_name_ok:
  assumes "\<exists>c\<in>set s. \<not> is_space c"
  shows "\<exists>x. mask_name s = Inr x"
proof -
  from assms have ne: "split_ws s \<noteq> []"
    by (simp add: split_ws_def split_acc_nonempty)
  then have "hd (split_ws s) \<in> set (split_ws s)" "last (split_ws s) \<in> set (split_ws s)"
    by simp_all
  then have "hd (split_ws s) \<noteq> []" "last (split_ws s) \<noteq> []"
    by (auto simp: split_ws_def dest: split_acc_tokens)
  with ne show ?thesis
    by (cases "split_ws s"; cases "hd (split_ws s)"; cases "last (split_ws s)")
       (auto simp: mask_name_def index0_def index_last_def Let_def)
qed

lemma mask_at_eq:
  "CHR ''@'' \<in> set s \<Longrightarrow>
   mask_at s = Inr (VStr (take 2 (takeWhile (\<lambda>c. c \<noteq> CHR ''@'') s) @ ''XXX@'' @
                          tl (dropWhile (\<lambda>c. c \<noteq> CHR ''@'') s)))"
  by (simp add: mask_at_def split1_def)

lemma redact_str_detected:
  assumes "detect_standalone_pii (VStr s)"
  shows "\<exists>x. redact_str key s = Inr x"
proof -
  from assms obtain c where c: "c \<in> set s" "is_word c"
    using detect_standalone_word by blast
  then have ne: "s \<noteq> []" by auto
  from c have "\<exists>c\<in>set s. \<not> is_space c" by (auto dest: is_word_not_space)
  then obtain x where x: "mask_name s = Inr x" using mask_name_ok by blast
  from ne x show ?thesis
    by (cases s) (auto simp: redact_str_def index0_def mask_at_eq split: option.splits)
qed

lemma redact_value_detected:
  "detect_standalone_pii (VStr (py_str v)) \<Longrightarrow> \<exists>x. redact_value key v = Inr x"
  by (cases v) (simp_all add: redact_str_detected)

lemma dict_set_present: "k \<in> fst ` set d \<Longrightarrow> map fst (dict_set d k v) = map fst d"
  by (induction d) force+

lemma dict_set_absent: "k \<notin> fst ` set d \<Longrightarrow> dict_set d k v = d @ [(k, v)]"
  by (induction d) auto

lemma map_of_dict_set: "map_of (dict_set d k v) k' = (if k' = k then Some v else map_of d k')"
  by (induction d) auto

lemma standalone_loop_keys:
  "standalone_loop data (h, rd) = Inr (h', rd') \<Longrightarrow> distinct (map fst rd @ map fst data) \<Longrightarrow>
   map fst rd' = map fst rd @ map fst data"
proof (induction data arbitrary: h rd)
  case Nil
  then show ?case by simp
next
  case (Cons kv rest)
  obtain k v where kv: "kv = (k, v)" by (cases kv)
  from Cons.prems(2) kv have absent: "k \<notin> fst ` set rd" by auto
  have step: "distinct (map fst (dict_set rd k x) @ map fst rest)" for x
    using Cons.prems(2) kv absent by (auto simp: dict_set_absent)
  from Cons.prems(1) kv obtain h1 x where "standalone_loop rest (h1, dict_set rd k x) = Inr (h', rd')"
    by (auto split: if_splits sum.splits)
  from Cons.IH [OF this step] show ?case
    using kv absent by (simp add: dict_set_absent)
qed

lemma combinatorial_loop_keys:
  "combinatorial_loop items rd = Inr rd' \<Longrightarrow> fst ` set items \<subseteq> fst ` set rd \<Longrightarrow>
   map fst rd' = map fst rd"
proof (induction items arbitrary: rd)
  case Nil
  then show ?case by simp
next
  case (Cons kv rest)
  obtain k v where kv: "kv = (k, v)" by (cases kv)
  from Cons.prems(2) kv have present: "k \<in> fst ` set rd" and sub: "fst ` set rest \<subseteq> fst ` set rd"
    by auto
  have keys: "map fst (dict_set rd k x) = map fst rd" for x
    using present by (rule dict_set_present)
  then have sub': "fst ` set rest \<subseteq> fst ` set (dict_set rd k x)" for x
    using sub by (metis set_map)
  from Cons.prems(1) kv
  have "(\<exists>x. combinatorial_loop rest (dict_set rd k x) = Inr rd') \<or>
        combinatorial_loop rest rd = Inr rd'"
    by (auto split: if_splits sum.splits)
  then show ?case
    using Cons.IH sub sub' keys by metis
qed

lemma process_mapping_keys:
  assumes "process_mapping data = Inr (rd, flag)" and "distinct (map fst data)"
  shows "map fst rd = map fst data"
proof -
  from assms(1) obtain h rd1 where loop1: "standalone_loop data (False, []) = Inr (h, rd1)"
    by (auto simp: process_mapping_def split: sum.splits)
  from standalone_loop_keys [OF loop1] assms(2) have k1: "map fst rd1 = map fst data" by simp
  from assms(1) loop1 have "rd = rd1 \<or> combinatorial_loop rd1 rd1 = Inr rd"
    by (auto simp: process_mapping_def split: if_splits sum.splits)
  then show ?thesis
    using k1 combinatorial_loop_keys [of rd1 rd1 rd] by auto
qed

lemma standalone_loop_total: "\<exists>st'. standalone_loop data st = Inr st'"
proof (induction data arbitrary: st)
  case Nil
  show ?case by simp
next
  case (Cons kv rest)
  obtain k v h rd where kv: "kv = (k, v)" "st = (h, rd)" by (cases kv, cases st)
  show ?case
  proof (cases "detect_standalone_pii (VStr (py_str v))")
    case True
    then obtain x where "redact_value k v = Inr x" using redact_value_detected by blast
    with True kv Cons.IH show ?thesis by simp
  next
    case False
    with kv Cons.IH show ?thesis by simp
  qed
qed

lemma standalone_loop_other:
  "standalone_loop data (h, rd) = Inr (h', rd') \<Longrightarrow> k \<notin> fst ` set data \<Longrightarrow>
   map_of rd' k = map_of rd k"
proof (induction data arbitrary: h rd)
  case Nil
  then show ?case by simp
next
  case (Cons kv rest)
  obtain k0 v0 where kv: "kv = (k0, v0)" by (cases kv)
  from Cons.prems(1) kv obtain h1 x where "standalone_loop rest (h1, dict_set rd k0 x) = Inr (h', rd')"
    by (auto split: if_splits sum.splits)
  from Cons.IH [OF this] Cons.prems(2) kv show ?case
    by (auto simp: map_of_dict_set)
qed

lemma standalone_loop_flag:
  "standalone_loop data (h, rd) = Inr (h', rd') \<Longrightarrow>
   h' = (h \<or> (\<exists>kv\<in>set data. detect_standalone_pii (VStr (py_str (snd kv)))))"
proof (induction data arbitrary: h rd)
  case Nil
  then show ?case by simp
next
  case (Cons kv rest)
  obtain k v where kv: "kv = (k, v)" by (cases kv)
  show ?case
  proof (cases "detect_standalone_pii (VStr (py_str v))")
    case True
    with Cons.prems kv obtain x where "standalone_loop rest (True, dict_set rd k x) = Inr (h', rd')"
      by (auto split: sum.splits)
    from Cons.IH [OF this] True kv show ?thesis by simp
  next
    case False
    with Cons.prems kv have "standalone_loop rest (h, dict_set rd k v) = Inr (h', rd')"
      by simp
    from Cons.IH [OF this] False kv show ?thesis by simp
  qed
qed

lemma standalone_loop_non_str:
  "standalone_loop data (h, rd) = Inr (h', rd') \<Longrightarrow> distinct (map fst data) \<Longrightarrow>
   (k, v) \<in> set data \<Longrightarrow> \<not> is_str v \<Longrightarrow> map_of rd' k = Some v"
proof (induction data arbitrary: h rd)
  case Nil
  then show ?case by simp
next
  case (Cons kv rest)
  obtain k0 v0 where kv: "kv = (k0, v0)" by (cases kv)
  from Cons.prems(1) kv obtain h1 x
    where rest: "standalone_loop rest (h1, dict_set rd k0 x) = Inr (h', rd')"
      and x: "x = v0 \<or> redact_value k0 v0 = Inr x"
    by (auto split: if_splits sum.splits)
  show ?case
  proof (cases "(k, v) = (k0, v0)")
    case True
    with Cons.prems(4) x have "x = v" by (cases v) auto
    moreover from True Cons.prems(2) kv have "k \<notin> fst ` set rest" by auto
    ultimately show ?thesis
      using standalone_loop_other [OF rest] True by (simp add: map_of_dict_set)
  next
    case False
    with Cons.prems kv have "(k, v) \<in> set rest" "distinct (map fst rest)" by auto
    with Cons.IH [OF rest] Cons.prems(4) show ?thesis by simp
  qed
qed

lemma split_acc_all_space: "\<forall>c\<in>set s. is_space c \<Longrightarrow> split_acc [] s = []"
  by (induction s) simp_all

lemma mask_name_raises_iff:
  "mask_name s = Inl e \<longleftrightarrow> (\<forall>c\<in>set s. is_space c) \<and> e = IndexError"
proof (cases "\<forall>c\<in>set s. is_space c")
  case True
  then show ?thesis
    by (auto simp: mask_name_def split_ws_def split_acc_all_space index0_def)
next
  case False
  then obtain x where "mask_name s = Inr x" using mask_name_ok by blast
  with False show ?thesis by simp
qed

lemma redact_str_raises:
  assumes "redact_str key s = Inl e"
  shows "key = ''name'' \<and> CHR '' '' \<in> set s \<and> mask_name s = Inl e"
proof -
  have pass: "re_found passport_pattern s \<Longrightarrow> index0 s = Inr (hd s)"
    using passport_search_upper [of s] by (cases s) (auto simp: index0_def)
  have upi: "re_found upi_pattern s \<Longrightarrow> CHR ''@'' \<in> set s"
    by (rule upi_search_at)
  have at: "CHR ''@'' \<in> set s \<Longrightarrow> mask_at s \<noteq> Inl e"
    by (simp add: mask_at_eq)
  show ?thesis
  proof (cases "key = ''phone'' \<and> re_found phone_pattern s")
    case True
    with assms show ?thesis by (simp add: redact_str_def)
  next
    case c1: False
    show ?thesis
    proof (cases "key = ''aadhar'' \<and> re_found aadhar_pattern s")
      case True
      with assms c1 show ?thesis by (simp add: redact_str_def)
    next
      case c2: False
      show ?thesis
      proof (cases "key = ''passport'' \<and> re_found passport_pattern s")
        case True
        with assms c1 c2 pass show ?thesis by (simp add: redact_str_def)
      next
        case c3: False
        show ?thesis
        proof (cases "key = ''upi_id'' \<and> re_found upi_pattern s")
          case True
          with assms c1 c2 c3 upi at show ?thesis by (simp add: redact_str_def)
        next
          case c4: False
          show ?thesis
          proof (cases "key = ''name'' \<and> CHR '' '' \<in> set s")
            case True
            with assms c1 c2 c3 c4 show ?thesis by (simp add: redact_str_def)
          next
            case c5: False
            show ?thesis
            proof (cases "key = ''email'' \<and> CHR ''@'' \<in> set s")
              case True
              with assms c1 c2 c3 c4 c5 at show ?thesis by (simp add: redact_str_def)
            next
              case c6: False
              with assms c1 c2 c3 c4 c5 show ?thesis
                by (simp add: redact_str_def split: if_splits option.splits)
            qed
          qed
        qed
      qed
    qed
  qed
qed

lemma redact_value_raises_iff:
  "redact_value key v = Inl e \<longleftrightarrow>
     (\<exists>s. v = VStr s \<and> key = ''name'' \<and> CHR '' '' \<in> set s \<and> (\<forall>c\<in>set s. is_space c)) \<and>
     e = IndexError"
proof (cases v)
  case (VStr s)
  have "redact_str ''name'' s = mask_name s" if "CHR '' '' \<in> set s"
    using that by (simp add: redact_str_def)
  then show ?thesis
    unfolding VStr using redact_str_raises [of key s e]
    by (auto simp: mask_name_raises_iff)
qed simp_all

section \<open>The flag loop\<close>

lemma flag_step_non_str: "\<not> is_str v \<Longrightarrow> flag_step (k, v) fl = fl"
  by (cases v) (simp_all add: flag_step_def)

lemma if_set_flag:
  "(if c then fl\<lparr>name_flag := True\<rparr> else fl) = fl\<lparr>name_flag := name_flag fl \<or> c\<rparr>"
  "(if c then fl\<lparr>email_flag := True\<rparr> else fl) = fl\<lparr>email_flag := email_flag fl \<or> c\<rparr>"
  "(if c then fl\<lparr>address_flag := True\<rparr> else fl) = fl\<lparr>address_flag := address_flag fl \<or> c\<rparr>"
  "(if c then fl\<lparr>device_ip_flag := True\<rparr> else fl) = fl\<lparr>device_ip_flag := device_ip_flag fl \<or> c\<rparr>"
  by (cases c; cases fl; simp)+

lemma flag_step_str:
  "flag_step (k, VStr s) fl =
     fl\<lparr>name_flag := name_flag fl \<or> name_signal [(k, VStr s)],
        email_flag := email_flag fl \<or> email_signal [(k, VStr s)],
        address_flag := address_flag fl \<or> address_signal [(k, VStr s)],
        device_ip_flag := device_ip_flag fl \<or> device_ip_str_signal [(k, VStr s)]\<rparr>"
proof -
  have "flag_step (k, VStr s) fl =
     fl\<lparr>name_flag := name_flag fl \<or>
          (k = ''name'' \<and> CHR '' '' \<in> set s \<and> 2 \<le> length (split_ws s)),
        email_flag := email_flag fl \<or> (k = ''email'' \<and> CHR ''@'' \<in> set s),
        address_flag := address_flag fl \<or>
          (k = ''address'' \<and> list_ex (\<lambda>t. str_contains t (lower s)) address_terms),
        device_ip_flag := device_ip_flag fl \<or> k \<in> set [''device_id'', ''ip_address'']\<rparr>"
    unfolding flag_step_def Let_def if_set_flag by simp
  then show ?thesis
    by (simp add: name_signal_def email_signal_def address_signal_def device_ip_str_signal_def
          address_terms_def list_ex_iff)
qed

lemma flag_step_flags:
  "name_flag (flag_step kv fl) = (name_flag fl \<or> name_signal [kv])"
  "email_flag (flag_step kv fl) = (email_flag fl \<or> email_signal [kv])"
  "address_flag (flag_step kv fl) = (address_flag fl \<or> address_signal [kv])"
  "device_ip_flag (flag_step kv fl) = (device_ip_flag fl \<or> device_ip_str_signal [kv])"
proof -
  obtain k v where kv: "kv = (k, v)" by (cases kv)
  show "name_flag (flag_step kv fl) = (name_flag fl \<or> name_signal [kv])"
    unfolding kv by (cases v) (simp_all add: flag_step_str flag_step_non_str name_signal_def)
  show "email_flag (flag_step kv fl) = (email_flag fl \<or> email_signal [kv])"
    unfolding kv by (cases v) (simp_all add: flag_step_str flag_step_non_str email_signal_def)
  show "address_flag (flag_step kv fl) = (address_flag fl \<or> address_signal [kv])"
    unfolding kv by (cases v) (simp_all add: flag_step_str flag_step_non_str address_signal_def)
  show "device_ip_flag (flag_step kv fl) = (device_ip_flag fl \<or> device_ip_str_signal [kv])"
    unfolding kv by (cases v) (simp_all add: flag_step_str flag_step_non_str device_ip_str_signal_def)
qed

lemma signal_Cons:
  "name_signal (kv # d) = (name_signal [kv] \<or> name_signal d)"
  "email_signal (kv # d) = (email_signal [kv] \<or> email_signal d)"
  "address_signal (kv # d) = (address_signal [kv] \<or> address_signal d)"
  "device_ip_str_signal (kv # d) = (device_ip_str_signal [kv] \<or> device_ip_str_signal d)"
  by (simp_all add: name_signal_def email_signal_def address_signal_def device_ip_str_signal_def)

lemma signal_Nil:
  "\<not> name_signal []" "\<not> email_signal []" "\<not> address_signal []" "\<not> device_ip_str_signal []"
  by (simp_all add: name_signal_def email_signal_def address_signal_def device_ip_str_signal_def)

lemma flag_loop_flags:
  "name_flag (flag_loop data fl) = (name_flag fl \<or> name_signal data)"
  "email_flag (flag_loop data fl) = (email_flag fl \<or> email_signal data)"
  "address_flag (flag_loop data fl) = (address_flag fl \<or> address_signal data)"
  "device_ip_flag (flag_loop data fl) = (device_ip_flag fl \<or> device_ip_str_signal data)"
proof (induction data arbitrary: fl)
  case Nil
  {
    case 1 show ?case by (simp add: signal_Nil)
  next
    case 2 show ?case by (simp add: signal_Nil)
  next
    case 3 show ?case by (simp add: signal_Nil)
  next
    case 4 show ?case by (simp add: signal_Nil)
  }
next
  case (Cons kv rest)
  {
    case 1 show ?case using Cons.IH(1) signal_Cons(1) [of kv rest] by (simp add: flag_step_flags)
  next
    case 2 show ?case using Cons.IH(2) signal_Cons(2) [of kv rest] by (simp add: flag_step_flags)
  next
    case 3 show ?case using Cons.IH(3) signal_Cons(3) [of kv rest] by (simp add: flag_step_flags)
  next
    case 4 show ?case using Cons.IH(4) signal_Cons(4) [of kv rest] by (simp add: flag_step_flags)
  }
qed

lemma combinatorial_flags_signals:
  "name_flag (combinatorial_flags data) = name_signal data"
  "email_flag (combinatorial_flags data) = email_signal data"
  "address_flag (combinatorial_flags data) = address_signal data"
  "device_ip_flag (combinatorial_flags data) = device_ip_str_signal data"
  by (simp_all add: combinatorial_flags_def flag_loop_flags)

section \<open>The examples of the specification\<close>

lemma redact_value_examples:
  "redact_value ''aadhar'' (VStr ''123456789012'') = Inr (VStr ''XXXX XXXX 9012'')"
  "redact_value ''passport'' (VStr ''A1234567'') = Inr (VStr ''AXXXXXXX'')"
  "redact_value ''upi_id'' (VStr ''alice@bank.com'') = Inr (VStr ''alXXX@bank.com'')"
  "redact_value ''upi_id'' (VStr ''9876543210@upi'') = Inr (VStr ''98XXX@upi'')"
  "redact_value ''name'' (VStr ''John Smith'') = Inr (VStr ''JXXX SXXX'')"
  "redact_value ''name'' (VStr ''John'') = Inr (VStr ''John'')"
  "redact_value ''address'' (VStr ''12 MG Road, Bangalore 560001'')
     = Inr (VStr ''[REDACTED_ADDRESS], 560001'')"
  "redact_value ''address'' (VStr ''12 MG Road, Bangalore'') = Inr (VStr ''[REDACTED_ADDRESS]'')"
  by code_simp+

text \<open>
  Characters of the Latin-1 supplement: 0xE9 (a letter) next to the digits takes the
  word boundary away, 0xD7 (the multiplication sign) and 0xA0 (the no-break space) do
  not; 0xA0 and 0x85 separate tokens.
\<close>

lemma latin1_examples:
  "\<not> detect_standalone_pii (VStr (CHR 0xE9 # ''9876543210''))"
  "detect_standalone_pii (VStr (CHR 0xD7 # ''9876543210''))"
  "\<not> detect_standalone_pii (VStr (''9876543210'' @ [CHR 0xB2]))"
  "detect_standalone_pii (VStr (''9876543210'' @ [CHR 0xA0]))"
  "\<not> detect_standalone_pii (VStr (CHR 0xE9 # ''9876543210@upi''))"
  "detect_standalone_pii (VStr [CHR 0xE9, CHR ''@'', CHR 0xE9, CHR ''.'', CHR 0xE9])"
  "redact_value ''phone'' (VStr (CHR 0xE9 # ''9876543210'')) = Inr (VStr (CHR 0xE9 # ''9876543210''))"
  "redact_value ''name'' (VStr [CHR '' '', CHR 0xA0]) = Inl IndexError"
  "split_ws ('' John'' @ CHR 0xA0 # ''Smith'') = [''John'', ''Smith'']"
  "split_ws [CHR ''a'', CHR 0x85, CHR ''b''] = [''a'', ''b'']"
  "lower [CHR 0xC9, CHR 0xD7, CHR 0xDE, CHR 0xDF] = [CHR 0xE9, CHR 0xD7, CHR 0xFE, CHR 0xDF]"
  by code_simp+

lemma process_mapping_example:
  "process_mapping [(''phone'', VStr ''9876543210''), (''city'', VStr ''Pune'')]
     = Inr ([(''phone'', VStr ''98XXXXXX10''), (''city'', VStr ''Pune'')], True)"
  by code_simp

section \<open>Totality of the engine\<close>

text \<open>
  C1. \<^verbatim>\<open>redact_value\<close> is not total: on the field \<^verbatim>\<open>name\<close> with a value made of one
  space, the guard \<^verbatim>\<open>' ' in value\<close> holds, \<^verbatim>\<open>value.split()\<close> is empty and
  \<^verbatim>\<open>parts[0]\<close> raises IndexError. \<^verbatim>\<open>process_record\<close> reaches that call on a record
  whose email and address fields set two combinatorial signals. By
  \<open>redact_value_raises_iff\<close> the whitespace-only names are the only inputs on which
  \<^verbatim>\<open>redact_value\<close> raises.
\<close>

theorem redact_value_name_blank_raises:
  "redact_value ''name'' (VStr '' '') = Inl IndexError \<and>
   process_mapping
     [(''name'', VStr '' ''), (''email'', VStr ''a@b''), (''address'', VStr ''1 road'')]
     = Inl IndexError"
  by code_simp

section \<open>The combinatorial detector\<close>

text \<open>
  C2 (as amended). The \<^verbatim>\<open>device_ip\<close> flag is set exactly when the mapping has a key
  \<^verbatim>\<open>device_id\<close> or \<^verbatim>\<open>ip_address\<close> whose value is a string; the content of the
  string is irrelevant (the empty string is enough). The test sits inside
  \<^verbatim>\<open>if isinstance(value, str)\<close>, so a number, boolean or null under either key does
  not set the flag.
\<close>

theorem device_ip_flag_string_valued:
  "device_ip_flag (combinatorial_flags data) \<longleftrightarrow>
     (\<exists>key s. (key = ''device_id'' \<or> key = ''ip_address'') \<and> (key, VStr s) \<in> set data)"
proof -
  have "is_str v \<longleftrightarrow> (\<exists>s. v = VStr s)" for v by (cases v) simp_all
  then show ?thesis
    by (fastforce simp add: combinatorial_flags_signals(4) device_ip_str_signal_def)
qed

theorem device_ip_flag_string_valued_witness:
  "device_ip_flag (combinatorial_flags [(''user'', VInt 7), (''ip_address'', VStr [])])"
  using device_ip_flag_string_valued [of "[(''user'', VInt 7), (''ip_address'', VStr [])]"]
  by simp

text \<open>
  Key presence alone is not enough: with \<^verbatim>\<open>device_id\<close> holding the number 12345 the
  flag stays false, and together with an email field the record has one signal, not two.
\<close>

theorem device_ip_key_presence_counterexample:
  "(''device_id'', VInt 12345) \<in> set [(''device_id'', VInt 12345), (''email'', VStr ''a@b'')] \<and>
   \<not> device_ip_flag (combinatorial_flags [(''device_id'', VInt 12345), (''email'', VStr ''a@b'')]) \<and>
   \<not> detect_combinatorial_pii [(''device_id'', VInt 12345), (''email'', VStr ''a@b'')]"
  by code_simp

text \<open>
  C6 (as amended). \<^verbatim>\<open>detect_combinatorial_pii\<close> returns true exactly when at least two
  of four signals hold: the name, email and address signals, and the signal that a
  field named \<^verbatim>\<open>device_id\<close> or \<^verbatim>\<open>ip_address\<close> is present with a string value. The
  mapping with name \<^verbatim>\<open>Jane Doe\<close> and email \<^verbatim>\<open>jane@x.com\<close> is flagged; the mapping
  with the name alone is not.
\<close>

theorem detect_combinatorial_pii_two_of_four:
  "(detect_combinatorial_pii data \<longleftrightarrow>
      2 \<le> (of_bool (name_signal data) + of_bool (email_signal data) +
            of_bool (address_signal data) + of_bool (device_ip_str_signal data) :: nat)) \<and>
   detect_combinatorial_pii [(''name'', VStr ''Jane Doe''), (''email'', VStr ''jane@x.com'')] \<and>
   \<not> detect_combinatorial_pii [(''name'', VStr ''Jane Doe'')]"
proof -
  have "detect_combinatorial_pii [(''name'', VStr ''Jane Doe''), (''email'', VStr ''jane@x.com'')]"
    by code_simp
  moreover have "\<not> detect_combinatorial_pii [(''name'', VStr ''Jane Doe'')]"
    by code_simp
  ultimately show ?thesis
    by (simp add: detect_combinatorial_pii_def flag_sum_def combinatorial_flags_signals)
qed

theorem detect_combinatorial_pii_two_of_four_witness:
  "detect_combinatorial_pii [(''email'', VStr ''a@b''), (''ip_address'', VStr ''10.0.0.1'')] \<and>
   email_signal [(''email'', VStr ''a@b''), (''ip_address'', VStr ''10.0.0.1'')] \<and>
   device_ip_str_signal [(''email'', VStr ''a@b''), (''ip_address'', VStr ''10.0.0.1'')]"
proof -
  have "email_signal [(''email'', VStr ''a@b''), (''ip_address'', VStr ''10.0.0.1'')]"
    by (simp add: email_signal_def)
  moreover have "device_ip_str_signal [(''email'', VStr ''a@b''), (''ip_address'', VStr ''10.0.0.1'')]"
    by (simp add: device_ip_str_signal_def)
  ultimately show ?thesis
    using detect_combinatorial_pii_two_of_four
      [of "[(''email'', VStr ''a@b''), (''ip_address'', VStr ''10.0.0.1'')]"]
    by simp
qed

text \<open>
  With the fourth signal read as the presence of the key alone the equivalence fails:
  the mapping with \<^verbatim>\<open>ip_address\<close> null and the name \<^verbatim>\<open>Jane Doe\<close> has two such
  signals and is not flagged.
\<close>

theorem detect_combinatorial_pii_key_presence_counterexample:
  "2 \<le> (of_bool (name_signal [(''ip_address'', VNone), (''name'', VStr ''Jane Doe'')]) +
         of_bool (email_signal [(''ip_address'', VNone), (''name'', VStr ''Jane Doe'')]) +
         of_bool (address_signal [(''ip_address'', VNone), (''name'', VStr ''Jane Doe'')]) +
         of_bool (device_ip_signal [(''ip_address'', VNone), (''name'', VStr ''Jane Doe'')]) :: nat) \<and>
   \<not> detect_combinatorial_pii [(''ip_address'', VNone), (''name'', VStr ''Jane Doe'')]"
  by code_simp

section \<open>The standalone detector and the phone rule\<close>

text \<open>
  C5. \<^verbatim>\<open>detect_standalone_pii\<close> is true on every string \<open>a @ d @ b\<close> in which \<open>d\<close> is
  a run of ten digits with no word character next to it on either side, and false on
  every string that is a bare run of nine or of eleven digits.
\<close>

theorem detect_standalone_pii_phone_boundary:
  "(list_all is_digit d \<and> length d = 10 \<and> (a = [] \<or> \<not> is_word (last a)) \<and>
    (b = [] \<or> \<not> is_word (hd b)) \<longrightarrow> detect_standalone_pii (VStr (a @ d @ b))) \<and>
   (list_all is_digit s \<and> (length s = 9 \<or> length s = 11) \<longrightarrow> \<not> detect_standalone_pii (VStr s))"
proof (intro conjI impI)
  assume h: "list_all is_digit d \<and> length d = 10 \<and> (a = [] \<or> \<not> is_word (last a)) \<and>
    (b = [] \<or> \<not> is_word (hd b))"
  then have "d \<noteq> []" by auto
  with h have "re_found (cat [WordB, rep (length d) (Cls [Digit]), WordB]) (a @ d @ b)"
    by (intro digit_run_search) simp_all
  with h have "re_found phone_pattern (a @ d @ b)"
    by (simp add: phone_pattern_def)
  then show "detect_standalone_pii (VStr (a @ d @ b))" by simp
next
  assume "list_all is_digit s \<and> (length s = 9 \<or> length s = 11)"
  then show "\<not> detect_standalone_pii (VStr s)"
    by (intro detect_digits_false) auto
qed

theorem detect_standalone_pii_phone_boundary_witness:
  "detect_standalone_pii (VStr (''call '' @ ''9876543210'' @ '', now'')) \<and>
   \<not> detect_standalone_pii (VStr ''123456789'') \<and>
   \<not> detect_standalone_pii (VStr ''12345678901'')"
proof -
  have d: "list_all is_digit ''9876543210'' \<and> length ''9876543210'' = 10 \<and>
           (''call '' = [] \<or> \<not> is_word (last ''call '')) \<and>
           ('', now'' = [] \<or> \<not> is_word (hd '', now''))"
    by (simp add: is_digit_def is_word_def is_upper_def is_lower_def is_latin1_alnum_def)
  have s9: "list_all is_digit ''123456789'' \<and> (length ''123456789'' = 9 \<or> length ''123456789'' = 11)"
    by (simp add: is_digit_def)
  have s11: "list_all is_digit ''12345678901'' \<and>
             (length ''12345678901'' = 9 \<or> length ''12345678901'' = 11)"
    by (simp add: is_digit_def)
  from d s9 s11
    detect_standalone_pii_phone_boundary [of "''9876543210''" "''call ''" "'', now''" "''123456789''"]
    detect_standalone_pii_phone_boundary [of "''9876543210''" "''call ''" "'', now''" "''12345678901''"]
  show ?thesis by blast
qed

text \<open>
  C7. For a string \<open>v\<close> that contains a word-bounded run of ten digits,
  \<^verbatim>\<open>redact_value('phone', v)\<close> is \<^verbatim>\<open>v[:2] + 'XXXXXX' + v[-2:]\<close>: the first two
  characters of \<open>v\<close>, the six-character mask, the last two characters of \<open>v\<close>.
\<close>

theorem redact_value_phone:
  assumes "list_all is_digit d" and "length d = 10"
    and "a = [] \<or> \<not> is_word (last a)" and "b = [] \<or> \<not> is_word (hd b)"
    and "v = a @ d @ b"
  shows "redact_value ''phone'' (VStr v) =
           Inr (VStr (take 2 v @ ''XXXXXX'' @ drop (length v - 2) v))"
proof -
  from assms(2) have "d \<noteq> []" by auto
  with assms have "re_found (cat [WordB, rep (length d) (Cls [Digit]), WordB]) (a @ d @ b)"
    by (intro digit_run_search) simp_all
  with assms have "re_found phone_pattern v"
    by (simp add: phone_pattern_def)
  then show ?thesis
    by (simp add: redact_str_def last_chars_def)
qed

theorem redact_value_phone_witness:
  "redact_value ''phone'' (VStr ''+91 9876543210'') = Inr (VStr ''+9XXXXXX10'')"
proof -
  have d: "list_all is_digit ''9876543210''" "length ''9876543210'' = 10"
    "''+91 '' = [] \<or> \<not> is_word (last ''+91 '')" "[] = [] \<or> \<not> is_word (hd [])"
    "''+91 9876543210'' = ''+91 '' @ ''9876543210'' @ []"
    by (simp_all add: is_digit_def is_word_def is_upper_def is_lower_def is_latin1_alnum_def)
  from redact_value_phone [OF d] show ?thesis by simp
qed

text \<open>
  C10. Whenever the UPI pattern matches \<open>v\<close>, the string contains \<^verbatim>\<open>@\<close> (both
  alternatives of the pattern read one), so \<^verbatim>\<open>redact_value('upi_id', v)\<close> is the
  split-at-\<^verbatim>\<open>@\<close> transform and the fallback after it is never executed.
\<close>

theorem redact_value_upi_always_splits:
  assumes "re_found upi_pattern v"
  shows "CHR ''@'' \<in> set v \<and>
         redact_value ''upi_id'' (VStr v) =
           Inr (VStr (take 2 (takeWhile (\<lambda>c. c \<noteq> CHR ''@'') v) @ ''XXX@'' @
                      tl (dropWhile (\<lambda>c. c \<noteq> CHR ''@'') v)))"
proof -
  from assms have at: "CHR ''@'' \<in> set v" by (rule upi_search_at)
  with assms show ?thesis
    by (simp add: redact_str_def mask_at_eq)
qed

theorem redact_value_upi_always_splits_witness:
  "re_found upi_pattern ''9876543210@upi'' \<and> CHR ''@'' \<in> set ''9876543210@upi'' \<and>
   redact_value ''upi_id'' (VStr ''9876543210@upi'') = Inr (VStr ''98XXX@upi'')"
proof -
  have h: "re_found upi_pattern ''9876543210@upi''" by code_simp
  from redact_value_upi_always_splits [OF h] h show ?thesis by simp
qed

section \<open>The record orchestrator\<close>

text \<open>
  An exception of the decoder other than JSONDecodeError is not caught.
\<close>

lemma process_record_decoder_raises:
  "loads data_json = DecoderRaises e \<Longrightarrow>
   process_record loads dumps record_id data_json = Inl e"
  by (simp add: process_record_def)

text \<open>
  C3 (as amended). When \<^verbatim>\<open>json.loads\<close> raises JSONDecodeError on the payload,
  \<^verbatim>\<open>process_record\<close> raises nothing and returns the payload itself, unchanged, with
  the flag false. The recovery is tied to that exception of the decoder, not to the
  payload being invalid JSON: a payload the decoder accepts is processed as decoded.
\<close>

theorem process_record_decode_error:
  "loads data_json = JSONDecodeError \<Longrightarrow>
   process_record loads dumps record_id data_json = Inr (data_json, False)"
  by (simp add: process_record_def)

theorem process_record_decode_error_witness:
  \<open>(\<lambda>s. if s = ''{}'' then Dict [] else JSONDecodeError) ''{"phone": "98765'' = JSONDecodeError \<and>
   process_record (\<lambda>s. if s = ''{}'' then Dict [] else JSONDecodeError) (\<lambda>d. ''{}'') 7
     ''{"phone": "98765'' = Inr (''{"phone": "98765'', False)\<close>
  using process_record_decode_error
    [of \<open>\<lambda>s. if s = ''{}'' then Dict [] else JSONDecodeError\<close> \<open>''{"phone": "98765''\<close>
        \<open>\<lambda>d. ''{}''\<close> 7]
  by simp

text \<open>
  Not every payload that is not valid JSON is echoed. The payload \<^verbatim>\<open>NaN\<close> is not JSON
  (no JSON value starts with \<^verbatim>\<open>N\<close>), but \<^verbatim>\<open>json.loads\<close> accepts the literal and
  returns the float \<^verbatim>\<open>nan\<close>, which has no \<^verbatim>\<open>items\<close>: \<^verbatim>\<open>process_record\<close> raises
  AttributeError instead of returning the payload with the flag false.
\<close>

theorem process_record_invalid_json_counterexample:
  "\<not> json_start ''NaN'' \<and>
   process_record (\<lambda>s. if s = ''NaN'' then NonDict (VOther ''nan'') else JSONDecodeError)
     (\<lambda>d. ''{}'') 7 ''NaN'' = Inl AttributeError \<and>
   process_record (\<lambda>s. if s = ''NaN'' then NonDict (VOther ''nan'') else JSONDecodeError)
     (\<lambda>d. ''{}'') 7 ''NaN'' \<noteq> Inr (''NaN'', False)"
  by (simp add: process_record_def json_start_def json_ws_def json_value_start_def)

text \<open>
  C8. When the payload decodes to a value that is not a \<^verbatim>\<open>dict\<close> (a list, a number,
  a string, a boolean, null), \<^verbatim>\<open>data.items()\<close> raises AttributeError, which the
  \<^verbatim>\<open>except json.JSONDecodeError\<close> clause does not catch: no (payload, flag) result.
\<close>

theorem process_record_non_dict:
  "loads data_json = NonDict v \<Longrightarrow>
   process_record loads dumps record_id data_json = Inl AttributeError"
  by (simp add: process_record_def)

theorem process_record_non_dict_witness:
  "(\<lambda>s. if s = ''[1, 2]'' then NonDict (VOther ''[1, 2]'') else JSONDecodeError) ''[1, 2]''
     = NonDict (VOther ''[1, 2]'') \<and>
   process_record (\<lambda>s. if s = ''[1, 2]'' then NonDict (VOther ''[1, 2]'') else JSONDecodeError)
     (\<lambda>d. ''{}'') 7 ''[1, 2]'' = Inl AttributeError"
  using process_record_non_dict
    [of "\<lambda>s. if s = ''[1, 2]'' then NonDict (VOther ''[1, 2]'') else JSONDecodeError" "''[1, 2]''"
        "VOther ''[1, 2]''" "\<lambda>d. ''{}''" 7]
  by simp

text \<open>
  C4. When the payload decodes to a mapping (a \<^verbatim>\<open>dict\<close>, whose keys are distinct) and
  \<^verbatim>\<open>process_record\<close> returns, the text it returns is the encoding of a mapping with
  the keys of the decoded one, in the same order: detection and redaction replace
  values only.
\<close>

theorem process_record_keeps_keys:
  assumes "loads data_json = Dict data" and "distinct (map fst data)"
    and "process_record loads dumps record_id data_json = Inr (out, flag)"
  shows "\<exists>redacted_data. out = dumps redacted_data \<and> map fst redacted_data = map fst data"
proof -
  from assms(1,3) obtain rd where "process_mapping data = Inr (rd, flag)" and "out = dumps rd"
    by (auto simp: process_record_def split: sum.splits)
  with process_mapping_keys [OF _ assms(2)] show ?thesis by blast
qed

theorem process_record_keeps_keys_witness:
  \<open>(\<lambda>s. if s = ''{"phone": "9876543210", "city": "Pune"}''
         then Dict [(''phone'', VStr ''9876543210''), (''city'', VStr ''Pune'')]
         else JSONDecodeError) ''{"phone": "9876543210", "city": "Pune"}''
     = Dict [(''phone'', VStr ''9876543210''), (''city'', VStr ''Pune'')] \<and>
   distinct (map fst [(''phone'', VStr ''9876543210''), (''city'', VStr ''Pune'')]) \<and>
   process_record
     (\<lambda>s. if s = ''{"phone": "9876543210", "city": "Pune"}''
          then Dict [(''phone'', VStr ''9876543210''), (''city'', VStr ''Pune'')]
          else JSONDecodeError)
     (\<lambda>d. concat (map (\<lambda>kv. fst kv @ ''='' @ py_str (snd kv) @ '';'') d)) 1
     ''{"phone": "9876543210", "city": "Pune"}''
     = Inr (''phone=98XXXXXX10;city=Pune;'', True) \<and>
   (\<exists>redacted_data.
      ''phone=98XXXXXX10;city=Pune;''
        = (\<lambda>d. concat (map (\<lambda>kv. fst kv @ ''='' @ py_str (snd kv) @ '';'') d)) redacted_data \<and>
      map fst redacted_data = map fst [(''phone'', VStr ''9876543210''), (''city'', VStr ''Pune'')])\<close>
proof -
  let ?data = "[(''phone'', VStr ''9876543210''), (''city'', VStr ''Pune'')]"
  let ?loads = \<open>\<lambda>s. if s = ''{"phone": "9876543210", "city": "Pune"}''
         then Dict ?data else JSONDecodeError\<close>
  let ?dumps = "\<lambda>d. concat (map (\<lambda>kv. fst kv @ ''='' @ py_str (snd kv) @ '';'') d)"
  have h1: \<open>?loads ''{"phone": "9876543210", "city": "Pune"}'' = Dict ?data\<close>
    by simp
  have h2: "distinct (map fst ?data)"
    by simp
  have pm: "process_mapping ?data = Inr ([(''phone'', VStr ''98XXXXXX10''), (''city'', VStr ''Pune'')], True)"
    by code_simp
  have h3: \<open>process_record ?loads ?dumps 1 ''{"phone": "9876543210", "city": "Pune"}''
     = Inr (''phone=98XXXXXX10;city=Pune;'', True)\<close>
    by (simp add: process_record_def pm)
  from process_record_keeps_keys
    [where loads = ?loads and data_json = \<open>''{"phone": "9876543210", "city": "Pune"}''\<close>
       and data = ?data, OF h1 h2 h3] h1 h2 h3
  show ?thesis by blast
qed

text \<open>
  C9. A field whose value is not a string and whose text \<^verbatim>\<open>str(value)\<close> matches a
  standalone pattern makes \<^verbatim>\<open>process_record\<close> return with the flag true, and the
  returned mapping holds that field's value unchanged: detection reads the text of the
  value, redaction passes a non-string through.
\<close>

theorem process_record_non_string_unredacted:
  assumes "loads data_json = Dict data" and "distinct (map fst data)"
    and "(key, v) \<in> set data" and "\<not> is_str v"
    and "detect_standalone_pii (VStr (py_str v))"
  shows "\<exists>redacted_data.
           process_record loads dumps record_id data_json = Inr (dumps redacted_data, True) \<and>
           map_of redacted_data key = Some v"
proof -
  obtain h rd where loop: "standalone_loop data (False, []) = Inr (h, rd)"
    using standalone_loop_total [of data "(False, [])"] by (cases "standalone_loop data (False, [])") auto
  from standalone_loop_flag [OF loop] assms(3,5) have h: "h" by force
  from standalone_loop_non_str [OF loop assms(2,3,4)] have kept: "map_of rd key = Some v" .
  from loop h have "process_mapping data = Inr (rd, True)"
    by (simp add: process_mapping_def)
  with assms(1) have "process_record loads dumps record_id data_json = Inr (dumps rd, True)"
    by (simp add: process_record_def)
  with kept show ?thesis by blast
qed

theorem process_record_non_string_unredacted_witness:
  \<open>\<exists>redacted_data.
     process_record
       (\<lambda>s. if s = ''{"phone": 9876543210}'' then Dict [(''phone'', VInt 9876543210)]
            else JSONDecodeError)
       (\<lambda>d. concat (map (\<lambda>kv. fst kv @ ''='' @ py_str (snd kv) @ '';'') d)) 1
       ''{"phone": 9876543210}''
       = Inr ((\<lambda>d. concat (map (\<lambda>kv. fst kv @ ''='' @ py_str (snd kv) @ '';'') d)) redacted_data,
              True) \<and>
     map_of redacted_data ''phone'' = Some (VInt 9876543210)\<close>
proof -
  let ?data = "[(''phone'', VInt 9876543210)]"
  let ?loads = \<open>\<lambda>s. if s = ''{"phone": 9876543210}'' then Dict ?data else JSONDecodeError\<close>
  have h1: \<open>?loads ''{"phone": 9876543210}'' = Dict ?data\<close> by simp
  have h2: "distinct (map fst ?data)" by simp
  have h3: "(''phone'', VInt 9876543210) \<in> set ?data" by simp
  have h4: "\<not> is_str (VInt 9876543210)" by simp
  have p: "py_str (VInt 9876543210) = ''9876543210''"
    by (simp add: str_nat.simps [of "numeral k" for k] digit_char_def)
  have "detect_standalone_pii (VStr ''9876543210'')" by code_simp
  with p have h5: "detect_standalone_pii (VStr (py_str (VInt 9876543210)))" by simp
  from process_record_non_string_unredacted
    [where loads = ?loads and data_json = \<open>''{"phone": 9876543210}''\<close> and data = ?data
       and key = "''phone''" and v = "VInt 9876543210", OF h1 h2 h3 h4 h5]
  show ?thesis .
qed

end
